theory Spec2Isabelle
  imports Main
begin

section \<open>The intrusive singly linked list of singly\_linked\_list.h\<close>

text \<open>
  The header defines \<^verbatim>\<open>struct node<T>\<close> (a payload pointer and a pointer to the next
  node) and \<^verbatim>\<open>class handler<T>\<close>, whose only field is \<^verbatim>\<open>_head\<close>. Nodes live in
  memory owned by the caller and are identified by their address, so the model has an
  explicit store from addresses to nodes. A pointer is an optional address, \<open>None\<close>
  being \<^verbatim>\<open>nullptr\<close>. Every address holds a node: a \<^verbatim>\<open>node<T>*\<close> that is neither null
  nor the address of a live node is outside the model.
\<close>

type_synonym addr = nat
type_synonym ptr = "addr option"

record 'd node =
  data :: 'd
  next_node :: ptr

text \<open>
  The macros \<^verbatim>\<open>INFO\<close>, \<^verbatim>\<open>WARN\<close> and \<^verbatim>\<open>ERROR\<close> are the diagnostic sink. Each
  invocation is recorded, in order, with the node it reports (the warning carries a
  fixed message only).
\<close>

datatype diag = INFO ptr | WARN | ERROR ptr

text \<open>
  The state an operation works on: the memory holding the nodes, the handler's field
  \<^verbatim>\<open>_head\<close> (here \<open>p_head\<close>) and the diagnostics emitted so far.
\<close>

record 'd state =
  mem :: "addr \<Rightarrow> 'd node"
  p_head :: ptr
  diags :: "diag list"

subsection \<open>Operations\<close>

text \<open>\<^verbatim>\<open>handler::next\<close>: the null pointer is returned as it is.\<close>

definition next_ptr :: "(addr \<Rightarrow> 'd node) \<Rightarrow> ptr \<Rightarrow> ptr" where
  "next_ptr h current_pos =
     (case current_pos of None \<Rightarrow> None | Some a \<Rightarrow> next_node (h a))"

text \<open>\<^verbatim>\<open>handler::head\<close>.\<close>

definition head :: "'d state \<Rightarrow> ptr" where
  "head s = p_head s"

text \<open>\<^verbatim>\<open>handler::clean_next_ptr\<close>: nothing happens on the null pointer.\<close>

definition clean_next_ptr :: "'d state \<Rightarrow> ptr \<Rightarrow> 'd state" where
  "clean_next_ptr s node =
     (case node of
        None \<Rightarrow> s
      | Some a \<Rightarrow> s\<lparr>mem := (mem s)(a := (mem s a)\<lparr>next_node := None\<rparr>)\<rparr>)"

text \<open>
  The loop of \<^verbatim>\<open>handler::find\<close>. On a cyclic store it may run forever, which is the
  value \<open>None\<close> of the outer option. The last argument is a ghost counter of the loop
  bodies entered; it is returned beside the pointer and has no influence on it.
\<close>

partial_function (option) find_loop ::
  "(addr \<Rightarrow> 'd node) \<Rightarrow> ptr \<Rightarrow> ptr \<Rightarrow> nat \<Rightarrow> (ptr \<times> nat) option" where
  "find_loop h seek_node node k =
     (if seek_node \<noteq> None then
        (if seek_node = node then Some (seek_node, Suc k)
         else find_loop h (next_ptr h seek_node) node (Suc k))
      else Some (seek_node, k))"

text \<open>\<^verbatim>\<open>handler::find\<close>: a pure query, the state is only read.\<close>

definition find_node :: "'d state \<Rightarrow> ptr \<Rightarrow> ptr option" where
  "find_node s node =
     (let seek_node = p_head s in
      if seek_node = node then Some (p_head s)
      else map_option fst (find_loop (mem s) seek_node node 0))"

text \<open>
  The loop of \<^verbatim>\<open>handler::find_preceding_node\<close>, with its \<^verbatim>\<open>break\<close> when the walk
  falls off the end, and the same ghost counter.
\<close>

partial_function (option) find_preceding_loop ::
  "(addr \<Rightarrow> 'd node) \<Rightarrow> ptr \<Rightarrow> ptr \<Rightarrow> nat \<Rightarrow> (ptr \<times> nat) option" where
  "find_preceding_loop h seek_head target_node k =
     (if next_ptr h seek_head \<noteq> target_node then
        (let seek_head' = next_ptr h seek_head in
         if seek_head' = None then Some (seek_head', Suc k)
         else find_preceding_loop h seek_head' target_node (Suc k))
      else Some (seek_head, k))"

text \<open>
  \<^verbatim>\<open>handler::find_preceding_node\<close>. The only effect is the warning on an empty list,
  so the state is returned beside the pointer.
\<close>

definition find_preceding_node :: "'d state \<Rightarrow> ptr \<Rightarrow> (ptr \<times> 'd state) option" where
  "find_preceding_node s target_node =
     (let seek_head = p_head s in
      if seek_head = None then Some (None, s\<lparr>diags := diags s @ [WARN]\<rparr>)
      else if seek_head = target_node then Some (seek_head, s)
      else map_option (\<lambda>r. (fst r, s)) (find_preceding_loop (mem s) seek_head target_node 0))"

text \<open>\<^verbatim>\<open>handler::tail\<close>.\<close>

definition tail :: "'d state \<Rightarrow> (ptr \<times> 'd state) option" where
  "tail s = find_preceding_node s None"

text \<open>
  \<^verbatim>\<open>handler::append\<close>. The store through \<^verbatim>\<open>ptr->next_node\<close> needs a non-null
  \<^verbatim>\<open>ptr\<close>; a null one is undefined behaviour in the source and has no normal return
  here (lemma \<open>tail_not_null\<close> shows that the branch is dead).
\<close>

definition append_node :: "'d state \<Rightarrow> ptr \<Rightarrow> 'd state option" where
  "append_node s new_node =
     (if p_head s = None then Some (s\<lparr>p_head := new_node\<rparr>)
      else
        (case tail s of
           None \<Rightarrow> None
         | Some (None, s') \<Rightarrow> None
         | Some (Some a, s') \<Rightarrow>
             Some (s'\<lparr>mem := (mem s')(a := (mem s' a)\<lparr>next_node := new_node\<rparr>)\<rparr>)))"

text \<open>
  \<^verbatim>\<open>handler::remove\<close>. The C++ \<^verbatim>\<open>bool\<close> result: \<open>False\<close> is the source's
  \<^verbatim>\<open>return 0\<close> (removed), \<open>True\<close> its \<^verbatim>\<open>return 1\<close> (not found).
\<close>

definition remove_node :: "'d state \<Rightarrow> ptr \<Rightarrow> (bool \<times> 'd state) option" where
  "remove_node s node =
     (if node = p_head s then
        Some (False, clean_next_ptr (s\<lparr>p_head := next_ptr (mem s) node\<rparr>) node)
      else
        (case find_preceding_node s node of
           None \<Rightarrow> None
         | Some (None, s1) \<Rightarrow> Some (True, s1\<lparr>diags := diags s1 @ [ERROR node]\<rparr>)
         | Some (Some p, s1) \<Rightarrow>
             (let s2 = s1\<lparr>mem := (mem s1)(p := (mem s1 p)
                          \<lparr>next_node := next_ptr (mem s1) (next_node (mem s1 p))\<rparr>)\<rparr>;
                  s3 = clean_next_ptr s2 node
              in Some (False, s3\<lparr>diags := diags s3 @ [INFO node]\<rparr>))))"

text \<open>A sequence of appends, as a caller writes one call after the other.\<close>

fun appends :: "'d state \<Rightarrow> addr list \<Rightarrow> 'd state option" where
  "appends s [] = Some s"
| "appends s (n # ns) =
     (case append_node s (Some n) of None \<Rightarrow> None | Some s' \<Rightarrow> appends s' ns)"

subsection \<open>The chain invariant and reachability\<close>

text \<open>
  \<open>node_chain h p xs\<close>: starting at pointer \<open>p\<close> and following \<open>next_node\<close>, the
  nodes met are exactly \<open>xs\<close>, in this order, and the last one's \<open>next_node\<close> is null.
\<close>

primrec node_chain :: "(addr \<Rightarrow> 'd node) \<Rightarrow> ptr \<Rightarrow> addr list \<Rightarrow> bool" where
  "node_chain h p [] \<longleftrightarrow> p = None"
| "node_chain h p (a # as) \<longleftrightarrow> p = Some a \<and> node_chain h (next_node (h a)) as"

text \<open>
  The chain invariant of the specification: from \<open>_head\<close> the walk meets every node of
  the list exactly once and ends at a node whose next pointer is null.
\<close>

definition chain_inv :: "'d state \<Rightarrow> bool" where
  "chain_inv s \<longleftrightarrow> (\<exists>xs. node_chain (mem s) (p_head s) xs \<and> distinct xs)"

text \<open>
  A pointer is reachable from \<open>p\<close> when applying \<^verbatim>\<open>next\<close> zero or more times to \<open>p\<close>
  gives it. For the address of a node of a chain this is membership in the chain; the
  null pointer is what the walk along a chain ends with.
\<close>

definition reachable :: "(addr \<Rightarrow> 'd node) \<Rightarrow> ptr \<Rightarrow> ptr \<Rightarrow> bool" where
  "reachable h p q \<longleftrightarrow> (\<exists>k. (next_ptr h ^^ k) p = q)"

text \<open>
  The predecessor of a pointer along a list of addresses, as the walk of
  \<^verbatim>\<open>find_preceding_node\<close> sees it on a chain: the node before the first occurrence
  of the target, the last node for the null target. Used in the proofs only.
\<close>

fun pred_in :: "addr list \<Rightarrow> ptr \<Rightarrow> ptr" where
  "pred_in [] t = None"
| "pred_in [a] t = (if t = None then Some a else None)"
| "pred_in (a # b # xs) t = (if t = Some b then Some a else pred_in (b # xs) t)"

text \<open>The empty handler: \<^verbatim>\<open>_head = nullptr\<close>, over any memory, nothing reported yet.\<close>

definition empty_handler :: "(addr \<Rightarrow> 'd node) \<Rightarrow> 'd state" where
  "empty_handler h = \<lparr>mem = h, p_head = None, diags = []\<rparr>"

text \<open>
  Concrete memories for the examples: in \<open>mem3\<close> the nodes 1, 2, 3 form the chain
  1, 2, 3 and every other node is unlinked; in \<open>mem_fresh\<close> every node is unlinked; in
  \<open>mem_cyc\<close> node 1 points to itself, as after appending node 1 twice.
\<close>

definition mem_fresh :: "addr \<Rightarrow> nat node" where
  "mem_fresh = (\<lambda>a. \<lparr>data = 10 * a, next_node = None\<rparr>)"

definition mem3 :: "addr \<Rightarrow> nat node" where
  "mem3 = mem_fresh
     (1 := \<lparr>data = 10, next_node = Some 2\<rparr>,
      2 := \<lparr>data = 20, next_node = Some 3\<rparr>)"

definition list3 :: "nat state" where
  "list3 = \<lparr>mem = mem3, p_head = Some 1, diags = []\<rparr>"

definition mem_cyc :: "addr \<Rightarrow> nat node" where
  "mem_cyc = mem_fresh (1 := \<lparr>data = 10, next_node = Some 1\<rparr>)"

definition list_cyc :: "nat state" where
  "list_cyc = \<lparr>mem = mem_cyc, p_head = Some 1, diags = []\<rparr>"

section \<open>Chains and the walks along them\<close>

lemma next_ptr_simps [simp]:
  "next_ptr h None = None"
  "next_ptr h (Some a) = next_node (h a)"
  by (simp_all add: next_ptr_def)

lemma node_chain_None [simp]: "node_chain h None xs \<longleftrightarrow> xs = []"
  by (cases xs) auto

lemma node_chain_unique:
  "node_chain h p xs \<Longrightarrow> node_chain h p ys \<Longrightarrow> xs = ys"
proof (induction xs arbitrary: p ys)
  case Nil
  then show ?case by simp
next
  case (Cons a xs)
  then show ?case by (cases ys) auto
qed

lemma node_chain_upd:
  "a \<notin> set xs \<Longrightarrow> node_chain (h(a := v)) p xs \<longleftrightarrow> node_chain h p xs"
  by (induction xs arbitrary: p) auto

lemma funpow_next_None [simp]: "(next_ptr h ^^ k) None = None"
  by (induction k) auto

lemma reachable_chain:
  "node_chain h p xs \<Longrightarrow> reachable h p q \<longleftrightarrow> q = None \<or> q \<in> Some ` set xs"
proof (induction xs arbitrary: p)
  case Nil
  then show ?case by (auto simp: reachable_def)
next
  case (Cons a xs)
  then have p: "p = Some a" and ch: "node_chain h (next_node (h a)) xs" by auto
  have "reachable h p q \<longleftrightarrow> q = p \<or> reachable h (next_node (h a)) q"
  proof
    assume "reachable h p q"
    then obtain k where k: "(next_ptr h ^^ k) p = q" by (auto simp: reachable_def)
    show "q = p \<or> reachable h (next_node (h a)) q"
    proof (cases k)
      case 0
      with k show ?thesis by simp
    next
      case (Suc j)
      with k p have "(next_ptr h ^^ j) (next_node (h a)) = q"
        by (simp add: funpow_swap1)
      then show ?thesis by (auto simp: reachable_def)
    qed
  next
    assume "q = p \<or> reachable h (next_node (h a)) q"
    then show "reachable h p q"
    proof
      assume "q = p"
      then have "(next_ptr h ^^ 0) p = q" by simp
      then show ?thesis unfolding reachable_def by blast
    next
      assume "reachable h (next_node (h a)) q"
      then obtain k where "(next_ptr h ^^ k) (next_node (h a)) = q"
        by (auto simp: reachable_def)
      with p have "(next_ptr h ^^ Suc k) p = q" by (simp add: funpow_swap1)
      then show ?thesis unfolding reachable_def by blast
    qed
  qed
  with Cons.IH [OF ch] p show ?case by auto
qed

lemma find_loop_chain:
  "node_chain h p xs \<Longrightarrow>
   \<exists>k'. find_loop h p node k =
           Some (if node \<in> Some ` set xs then node else None, k') \<and> k' \<le> k + length xs"
proof (induction xs arbitrary: p k)
  case Nil
  then show ?case by (simp add: find_loop.simps)
next
  case (Cons a xs)
  then have p: "p = Some a" and ch: "node_chain h (next_node (h a)) xs" by auto
  show ?case
  proof (cases "node = Some a")
    case True
    with p show ?thesis by (subst find_loop.simps) simp
  next
    case False
    from Cons.IH [OF ch, of "Suc k"] obtain k' where
      "find_loop h (next_node (h a)) node (Suc k) =
         Some (if node \<in> Some ` set xs then node else None, k')" "k' \<le> Suc k + length xs"
      by blast
    with p False show ?thesis by (subst find_loop.simps) auto
  qed
qed


lemma find_preceding_loop_chain:
  "node_chain h (Some a) (a # xs) \<Longrightarrow>
   \<exists>k'. find_preceding_loop h (Some a) target k = Some (pred_in (a # xs) target, k') \<and>
        k' \<le> k + length (a # xs)"
proof (induction xs arbitrary: a k)
  case Nil
  then show ?case by (subst find_preceding_loop.simps) auto
next
  case (Cons b xs)
  then have nx: "next_node (h a) = Some b" and ch: "node_chain h (Some b) (b # xs)"
    by auto
  show ?case
  proof (cases "target = Some b")
    case True
    with nx show ?thesis by (subst find_preceding_loop.simps) simp
  next
    case False
    from Cons.IH [OF ch, of "Suc k"] obtain k' where
      "find_preceding_loop h (Some b) target (Suc k) = Some (pred_in (b # xs) target, k')"
      "k' \<le> Suc k + length (b # xs)"
      by blast
    with nx False show ?thesis by (subst find_preceding_loop.simps) auto
  qed
qed

lemma pred_in_None: "xs \<noteq> [] \<Longrightarrow> pred_in xs None = Some (last xs)"
  by (induction xs "None :: ptr" rule: pred_in.induct) auto

lemma pred_in_absent: "t \<notin> set (tl xs) \<Longrightarrow> pred_in xs (Some t) = None"
  by (induction xs "Some t" rule: pred_in.induct) auto

lemma pred_in_present:
  "t \<in> set (tl xs) \<Longrightarrow> \<exists>ys p zs. xs = ys @ p # t # zs \<and> pred_in xs (Some t) = Some p"
proof (induction xs "Some t" rule: pred_in.induct)
  case (3 a b xs)
  show ?case
  proof (cases "t = b")
    case True
    then have "a # b # xs = [] @ a # t # xs \<and> pred_in (a # b # xs) (Some t) = Some a"
      by simp
    then show ?thesis by blast
  next
    case False
    with 3 obtain ys p zs where ys: "b # xs = ys @ p # t # zs"
      and pr: "pred_in (b # xs) (Some t) = Some p" by auto
    from False pr have "pred_in (a # b # xs) (Some t) = Some p" by simp
    moreover from ys have "a # b # xs = (a # ys) @ p # t # zs" by simp
    ultimately show ?thesis by blast
  qed
qed auto

lemma node_chain_suffix:
  "node_chain h p (ys @ q # zs) \<Longrightarrow> node_chain h (next_node (h q)) zs"
  by (induction ys arbitrary: p) auto

lemma node_chain_next_inj:
  assumes ch: "node_chain h p xs" and d: "distinct xs"
    and q: "q \<in> set xs" and q': "q' \<in> set xs"
    and eq: "next_node (h q) = next_node (h q')"
  shows "q = q'"
proof -
  from q obtain ys zs where xs: "xs = ys @ q # zs" by (auto simp: in_set_conv_decomp)
  from q' obtain ys' zs' where xs': "xs = ys' @ q' # zs'" by (auto simp: in_set_conv_decomp)
  from ch xs have "node_chain h (next_node (h q)) zs" by (auto dest: node_chain_suffix)
  moreover from ch xs' have "node_chain h (next_node (h q')) zs'"
    by (auto dest: node_chain_suffix)
  ultimately have "zs = zs'" using eq by (auto dest: node_chain_unique)
  with xs xs' have "ys @ [q] = ys' @ [q']" by simp
  then show ?thesis by simp
qed

lemma node_chain_last:
  "node_chain h p xs \<Longrightarrow> xs \<noteq> [] \<Longrightarrow> next_node (h (last xs)) = None"
  by (induction xs arbitrary: p) (auto split: if_splits)

lemma node_chain_snoc:
  "node_chain h p xs \<Longrightarrow> xs \<noteq> [] \<Longrightarrow> n \<notin> set xs \<Longrightarrow> distinct xs \<Longrightarrow>
   next_node (h n) = None \<Longrightarrow>
   node_chain (h(last xs := (h (last xs))\<lparr>next_node := Some n\<rparr>)) p (xs @ [n])"
proof (induction xs arbitrary: p)
  case Nil
  then show ?case by simp
next
  case (Cons a xs)
  show ?case
  proof (cases "xs = []")
    case True
    with Cons.prems show ?thesis by auto
  next
    case False
    with Cons show ?thesis by auto
  qed
qed

lemma node_chain_splice:
  "node_chain h q (ys @ p # t # zs) \<Longrightarrow> distinct (ys @ p # t # zs) \<Longrightarrow>
   node_chain ((h(p := (h p)\<lparr>next_node := next_node (h t)\<rparr>))(t := v)) q (ys @ p # zs)"
proof (induction ys arbitrary: q)
  case Nil
  then have q: "q = Some p" and pt: "p \<noteq> t" and ch: "node_chain h (next_node (h t)) zs"
    and nin: "p \<notin> set zs" "t \<notin> set zs" by auto
  from ch nin have "node_chain ((h(p := (h p)\<lparr>next_node := next_node (h t)\<rparr>))(t := v))
    (next_node (h t)) zs" by (simp add: node_chain_upd)
  then have "node_chain ((h(p := (h p)\<lparr>next_node := next_node (h t)\<rparr>))(t := v))
    (next_node (((h(p := (h p)\<lparr>next_node := next_node (h t)\<rparr>))(t := v)) p)) zs"
    using pt by simp
  then have "node_chain ((h(p := (h p)\<lparr>next_node := next_node (h t)\<rparr>))(t := v))
    (Some p) (p # zs)"
    by (simp only: node_chain.simps simp_thms)
  with q show ?case by (simp only: append_Nil)
next
  case (Cons y ys)
  then show ?case by auto
qed

section \<open>The operations on a chain\<close>

lemma find_node_chain:
  assumes "node_chain (mem s) (p_head s) xs"
  shows "find_node s t = Some (if t = None \<or> t \<in> Some ` set xs then t else None)"
proof (cases "p_head s = t")
  case True
  with assms have "t = None \<or> t \<in> Some ` set xs" by (cases xs) auto
  with True show ?thesis by (simp add: find_node_def)
next
  case False
  from find_loop_chain [OF assms, of t 0] obtain k' where
    "find_loop (mem s) (p_head s) t 0 = Some (if t \<in> Some ` set xs then t else None, k')"
    by blast
  with False show ?thesis by (auto simp: find_node_def)
qed

lemma find_preceding_node_chain:
  assumes "node_chain (mem s) (p_head s) xs"
  shows "find_preceding_node s t =
    Some (case xs of
            [] \<Rightarrow> (None, s\<lparr>diags := diags s @ [WARN]\<rparr>)
          | a # ys \<Rightarrow> (if t = Some a then Some a else pred_in xs t, s))"
proof (cases xs)
  case Nil
  with assms show ?thesis by (simp add: find_preceding_node_def)
next
  case (Cons a ys)
  with assms have hd: "p_head s = Some a" and ch: "node_chain (mem s) (Some a) (a # ys)"
    by auto
  show ?thesis
  proof (cases "t = Some a")
    case True
    with hd Cons show ?thesis by (simp add: find_preceding_node_def)
  next
    case False
    from find_preceding_loop_chain [OF ch, of t 0] obtain k' where
      "find_preceding_loop (mem s) (Some a) t 0 = Some (pred_in (a # ys) t, k')" by blast
    with False hd Cons show ?thesis by (auto simp: find_preceding_node_def)
  qed
qed

lemma tail_chain:
  assumes "node_chain (mem s) (p_head s) xs"
  shows "tail s = Some (if xs = [] then (None, s\<lparr>diags := diags s @ [WARN]\<rparr>)
                        else (Some (last xs), s))"
proof (cases xs)
  case Nil
  with find_preceding_node_chain [OF assms, of None] show ?thesis by (simp add: tail_def)
next
  case (Cons a ys)
  then have "pred_in xs None = Some (last xs)" by (simp add: pred_in_None)
  with Cons find_preceding_node_chain [OF assms, of None] show ?thesis
    by (simp add: tail_def)
qed

lemma append_node_chain:
  assumes "node_chain (mem s) (p_head s) xs"
  shows "append_node s new_node =
    Some (if xs = [] then s\<lparr>p_head := new_node\<rparr>
          else s\<lparr>mem := (mem s)(last xs := (mem s (last xs))\<lparr>next_node := new_node\<rparr>)\<rparr>)"
proof (cases xs)
  case Nil
  with assms show ?thesis by (simp add: append_node_def)
next
  case (Cons a ys)
  with assms have "p_head s = Some a" by auto
  with Cons tail_chain [OF assms] show ?thesis by (simp add: append_node_def)
qed

lemma find_preceding_loop_not_null:
  assumes run: "find_preceding_loop h seek_head None k = Some r"
    and ne: "seek_head \<noteq> None"
  shows "fst r \<noteq> None"
proof -
  have "(None :: ptr) = None \<longrightarrow> seek_head \<noteq> None \<longrightarrow> fst r \<noteq> None"
  proof (rule find_preceding_loop.raw_induct
      [where P = "\<lambda>h sk t k r. t = None \<longrightarrow> sk \<noteq> None \<longrightarrow> fst r \<noteq> None", OF _ run])
    fix f and h :: "addr \<Rightarrow> 'a node" and sk t :: ptr and k :: nat and y :: "ptr \<times> nat"
    assume IH: "\<And>h sk t k y. f h sk t k = Some y \<Longrightarrow>
        t = None \<longrightarrow> sk \<noteq> None \<longrightarrow> fst y \<noteq> None"
      and eq: "(if next_ptr h sk \<noteq> t
          then let seek_head' = next_ptr h sk
               in if seek_head' = None then Some (seek_head', Suc k)
                  else f h seek_head' t (Suc k)
          else Some (sk, k)) = Some y"
    show "t = None \<longrightarrow> sk \<noteq> None \<longrightarrow> fst y \<noteq> None"
    proof (intro impI)
      assume t: "t = None" and sk: "sk \<noteq> None"
      show "fst y \<noteq> None"
      proof (cases "next_ptr h sk = None")
        case True
        with eq t sk show ?thesis by auto
      next
        case False
        with eq t have "f h (next_ptr h sk) t (Suc k) = Some y" by (simp add: Let_def)
        with IH t False show ?thesis by blast
      qed
    qed
  qed
  with ne show ?thesis by simp
qed

lemma tail_not_null:
  assumes hd: "p_head s \<noteq> None" and tl: "tail s = Some (p, s')"
  shows "p \<noteq> None \<and> s' = s"
proof -
  from hd obtain a where "p_head s = Some a" by auto
  then have eq: "tail s =
    map_option (\<lambda>r. (fst r, s)) (find_preceding_loop (mem s) (p_head s) None 0)"
    by (simp add: tail_def find_preceding_node_def)
  from tl have "map_option (\<lambda>r. (fst r, s))
    (find_preceding_loop (mem s) (p_head s) None 0) = Some (p, s')"
    unfolding eq .
  then obtain r where run: "find_preceding_loop (mem s) (p_head s) None 0 = Some r"
    and res: "p = fst r" "s' = s"
    by (cases "find_preceding_loop (mem s) (p_head s) None 0") auto
  from find_preceding_loop_not_null [OF run hd] res show ?thesis by simp
qed

lemma find_preceding_loop_cyc:
  assumes run: "find_preceding_loop mem_cyc (Some 1) None k = Some r"
  shows False
proof -
  have "mem_cyc = mem_cyc \<longrightarrow> Some (1::nat) = Some 1 \<longrightarrow> (None :: ptr) = None \<longrightarrow> False"
  proof (rule find_preceding_loop.raw_induct
      [where P = "\<lambda>h sk t k r. h = mem_cyc \<longrightarrow> sk = Some 1 \<longrightarrow> t = None \<longrightarrow> False",
        OF _ run])
    fix f and h :: "addr \<Rightarrow> nat node" and sk t :: ptr and k :: nat and y :: "ptr \<times> nat"
    assume IH: "\<And>h sk t k y. f h sk t k = Some y \<Longrightarrow>
        h = mem_cyc \<longrightarrow> sk = Some 1 \<longrightarrow> t = None \<longrightarrow> False"
      and eq: "(if next_ptr h sk \<noteq> t
          then let seek_head' = next_ptr h sk
               in if seek_head' = None then Some (seek_head', Suc k)
                  else f h seek_head' t (Suc k)
          else Some (sk, k)) = Some y"
    show "h = mem_cyc \<longrightarrow> sk = Some 1 \<longrightarrow> t = None \<longrightarrow> False"
    proof (intro impI)
      assume h: "h = mem_cyc" and sk: "sk = Some 1" and t: "t = None"
      then have "next_ptr h sk = Some 1" by (simp add: mem_cyc_def)
      with eq t have "f h (Some 1) t (Suc k) = Some y" by (simp add: Let_def)
      with IH h t show False by blast
    qed
  qed
  then show False by simp
qed

lemma remove_node_at_head:
  "remove_node s (p_head s) =
     Some (False, clean_next_ptr (s\<lparr>p_head := next_ptr (mem s) (p_head s)\<rparr>) (p_head s))"
  by (simp add: remove_node_def)

lemma node_chain_mid:
  "node_chain h q (us @ p # n # zs) \<Longrightarrow> next_node (h p) = Some n"
  by (drule node_chain_suffix) simp

lemma remove_node_empty:
  assumes "node_chain (mem s) (p_head s) []" and "t \<noteq> None"
  shows "remove_node s t = Some (True, s\<lparr>diags := diags s @ [WARN, ERROR t]\<rparr>)"
proof -
  from assms have "t \<noteq> p_head s" by auto
  with find_preceding_node_chain [OF assms(1), of t] show ?thesis
    by (simp add: remove_node_def)
qed

lemma remove_node_null:
  assumes ch: "node_chain (mem s) (p_head s) xs" and ne: "xs \<noteq> []"
  shows "remove_node s None = Some (False, s\<lparr>diags := diags s @ [INFO None]\<rparr>)"
proof -
  from ne obtain a ys where xs: "xs = a # ys" by (cases xs) auto
  with ch have hd: "p_head s = Some a" by simp
  from ne have "pred_in xs None = Some (last xs)" by (rule pred_in_None)
  with find_preceding_node_chain [OF ch, of None] xs
  have fp: "find_preceding_node s None = Some (Some (last xs), s)" by simp
  from ch ne have nx: "next_node (mem s (last xs)) = None" by (rule node_chain_last)
  then have "(mem s (last xs))\<lparr>next_node := None\<rparr> = mem s (last xs)" by simp
  then have "(mem s)(last xs := (mem s (last xs))\<lparr>next_node := None\<rparr>) = mem s"
    by simp
  with hd fp nx show ?thesis
    by (simp add: remove_node_def clean_next_ptr_def)
qed

lemma remove_node_inner:
  assumes ch: "node_chain (mem s) (p_head s) (us @ p # n # zs)"
    and d: "distinct (us @ p # n # zs)"
  shows "remove_node s (Some n) =
    Some (False, s\<lparr>mem := ((mem s)(p := (mem s p)\<lparr>next_node := next_node (mem s n)\<rparr>))
                           (n := (mem s n)\<lparr>next_node := None\<rparr>),
                    diags := diags s @ [INFO (Some n)]\<rparr>)"
proof -
  obtain a ys where xs: "us @ p # n # zs = a # ys" by (cases us) auto
  with ch have hd: "p_head s = Some a" by simp
  from xs d have na: "n \<noteq> a" and np: "n \<noteq> p" by (cases us; auto)+
  from xs d have "n \<in> set (tl (a # ys))" by (cases us) auto
  then obtain us' p' zs' where dec: "a # ys = us' @ p' # n # zs'"
    and pr: "pred_in (a # ys) (Some n) = Some p'"
    by (blast dest: pred_in_present)
  from ch xs dec have "next_node (mem s p') = Some n" by (auto dest: node_chain_mid)
  moreover from ch have "next_node (mem s p) = Some n" by (rule node_chain_mid)
  moreover from dec xs have "p' \<in> set (us @ p # n # zs)" by (metis in_set_conv_decomp)
  ultimately have "p' = p"
    using node_chain_next_inj [OF ch d, of p' p] by simp
  with pr find_preceding_node_chain [OF ch, of "Some n"] xs na
  have fp: "find_preceding_node s (Some n) = Some (Some p, s)" by simp
  from ch have nx: "next_node (mem s p) = Some n" by (rule node_chain_mid)
  from hd na fp nx np show ?thesis
    by (simp add: remove_node_def clean_next_ptr_def Let_def)
qed

lemma remove_node_absent:
  assumes ch: "node_chain (mem s) (p_head s) xs" and ne: "xs \<noteq> []" and n: "n \<notin> set xs"
  shows "remove_node s (Some n) = Some (True, s\<lparr>diags := diags s @ [ERROR (Some n)]\<rparr>)"
proof -
  from ne obtain a ys where xs: "xs = a # ys" by (cases xs) auto
  with ch have hd: "p_head s = Some a" by simp
  from n xs have na: "n \<noteq> a" and "n \<notin> set (tl xs)" by auto
  then have "pred_in xs (Some n) = None" by (simp add: pred_in_absent)
  with find_preceding_node_chain [OF ch, of "Some n"] xs na
  have "find_preceding_node s (Some n) = Some (None, s)" by simp
  with hd na show ?thesis by (simp add: remove_node_def)
qed

lemma node_chain_distinct: "node_chain h p xs \<Longrightarrow> distinct xs"
proof (induction xs arbitrary: p)
  case Nil
  then show ?case by simp
next
  case (Cons a xs)
  then have ch: "node_chain h (next_node (h a)) xs" by simp
  have "a \<notin> set xs"
  proof
    assume "a \<in> set xs"
    then obtain ys zs where xs: "xs = ys @ a # zs" by (auto simp: in_set_conv_decomp)
    with ch have "node_chain h (next_node (h a)) zs" by (auto dest: node_chain_suffix)
    with ch have "xs = zs" by (rule node_chain_unique)
    with xs show False by simp
  qed
  with Cons.IH [OF ch] show ?case by simp
qed

lemma chain_inv_iff: "chain_inv s \<longleftrightarrow> (\<exists>xs. node_chain (mem s) (p_head s) xs)"
  by (auto simp: chain_inv_def dest: node_chain_distinct)

lemma remove_node_cases:
  assumes ch: "node_chain (mem s) (p_head s) xs"
  obtains
    (head_null) "xs = []" "t = None" "remove_node s t = Some (False, s)"
  | (head) a ys where "xs = a # ys" "t = Some a"
      "remove_node s t = Some (False,
         s\<lparr>mem := (mem s)(a := (mem s a)\<lparr>next_node := None\<rparr>),
           p_head := next_node (mem s a)\<rparr>)"
  | (empty) n where "xs = []" "t = Some n"
      "remove_node s t = Some (True, s\<lparr>diags := diags s @ [WARN, ERROR t]\<rparr>)"
  | (null) "xs \<noteq> []" "t = None"
      "remove_node s t = Some (False, s\<lparr>diags := diags s @ [INFO None]\<rparr>)"
  | (inner) us p n zs where "xs = us @ p # n # zs" "t = Some n"
      "remove_node s t = Some (False,
         s\<lparr>mem := ((mem s)(p := (mem s p)\<lparr>next_node := next_node (mem s n)\<rparr>))
                    (n := (mem s n)\<lparr>next_node := None\<rparr>),
           diags := diags s @ [INFO t]\<rparr>)"
  | (absent) n where "xs \<noteq> []" "t = Some n" "n \<notin> set xs"
      "remove_node s t = Some (True, s\<lparr>diags := diags s @ [ERROR t]\<rparr>)"
proof -
  from ch have d: "distinct xs" by (rule node_chain_distinct)
  show thesis
  proof (cases xs)
    case Nil
    show ?thesis
    proof (cases t)
      case None
      with Nil ch have "p_head s = t" by simp
      with remove_node_at_head [of s] None have "remove_node s t = Some (False, s)"
        by (simp add: clean_next_ptr_def)
      with Nil None show ?thesis by (rule head_null)
    next
      case (Some n)
      with Nil ch remove_node_empty [of s t] show ?thesis by (auto intro: empty)
    qed
  next
    case (Cons a ys)
    with ch have hd: "p_head s = Some a" by simp
    show ?thesis
    proof (cases t)
      case None
      with Cons remove_node_null [OF ch] show ?thesis by (auto intro: null)
    next
      case (Some n)
      show ?thesis
      proof (cases "n = a")
        case True
        with Some hd have "t = p_head s" by simp
        with remove_node_at_head [of s] hd
        have "remove_node s t = Some (False,
           s\<lparr>mem := (mem s)(a := (mem s a)\<lparr>next_node := None\<rparr>),
             p_head := next_node (mem s a)\<rparr>)"
          by (simp add: clean_next_ptr_def)
        with Cons Some True show ?thesis by (auto intro: head)
      next
        case False
        show ?thesis
        proof (cases "n \<in> set ys")
          case True
          then obtain vs ws where ys: "ys = vs @ n # ws" by (auto simp: in_set_conv_decomp)
          have "\<exists>us p. a # vs = us @ [p]" by (metis append_butlast_last_id list.distinct(1))
          then obtain us p where "a # vs = us @ [p]" by blast
          with Cons ys have xs: "xs = us @ p # n # ws" by simp
          from remove_node_inner [of s us p n ws] ch d xs Some
          have "remove_node s t = Some (False,
             s\<lparr>mem := ((mem s)(p := (mem s p)\<lparr>next_node := next_node (mem s n)\<rparr>))
                        (n := (mem s n)\<lparr>next_node := None\<rparr>),
               diags := diags s @ [INFO t]\<rparr>)" by simp
          with xs Some show ?thesis by (rule inner)
        next
          case nin: False
          with False Cons have "n \<notin> set xs" "xs \<noteq> []" by auto
          with remove_node_absent [OF ch, of n] Some show ?thesis by (auto intro: absent)
        qed
      qed
    qed
  qed
qed

lemma remove_node_chain:
  assumes ch: "node_chain (mem s) (p_head s) xs"
  shows "\<exists>s'. remove_node s t = Some (t \<noteq> None \<and> t \<notin> Some ` set xs, s') \<and>
    node_chain (mem s') (p_head s') (case t of None \<Rightarrow> xs | Some n \<Rightarrow> remove1 n xs)"
proof -
  from ch have d: "distinct xs" by (rule node_chain_distinct)
  from ch show ?thesis
  proof (cases rule: remove_node_cases [where t = t])
    case head_null
    with ch show ?thesis by simp
  next
    case (head a ys)
    with ch d show ?thesis by (simp add: node_chain_upd)
  next
    case (empty n)
    with ch show ?thesis by simp
  next
    case null
    with ch show ?thesis by simp
  next
    case (inner us p n zs)
    from ch d inner(1) have "node_chain
      ((mem s)(p := (mem s p)\<lparr>next_node := next_node (mem s n)\<rparr>,
               n := (mem s n)\<lparr>next_node := None\<rparr>)) (p_head s) (us @ p # zs)"
      by (simp only: node_chain_splice)
    moreover from d inner(1) have "remove1 n xs = us @ p # zs"
      by (simp add: remove1_append)
    ultimately show ?thesis using inner by simp
  next
    case (absent n)
    with ch show ?thesis by (auto simp: remove1_idem)
  qed
qed

lemma remove_node_frame:
  assumes ch: "node_chain (mem s) (p_head s) xs"
    and rm: "remove_node s t = Some (r, s')"
  shows "(t = None \<or> t \<notin> Some ` set xs \<longrightarrow> mem s' = mem s \<and> p_head s' = p_head s) \<and>
    (\<forall>n. t = Some n \<and> n \<in> set xs \<longrightarrow> next_node (mem s' n) = None) \<and>
    (\<forall>a. data (mem s' a) = data (mem s a))"
proof -
  from ch have d: "distinct xs" by (rule node_chain_distinct)
  from ch show ?thesis
  proof (cases rule: remove_node_cases [where t = t])
    case head_null
    with rm show ?thesis by simp
  next
    case (head a ys)
    with rm show ?thesis by auto
  next
    case (empty n)
    with rm show ?thesis by auto
  next
    case null
    with rm show ?thesis by auto
  next
    case (inner us p n zs)
    with rm d show ?thesis by auto
  next
    case (absent n)
    with rm show ?thesis by auto
  qed
qed

lemma appends_chain:
  "node_chain (mem s) (p_head s) xs \<Longrightarrow> distinct (xs @ ns) \<Longrightarrow>
   \<forall>a\<in>set ns. next_node (mem s a) = None \<Longrightarrow>
   \<exists>s'. appends s ns = Some s' \<and> node_chain (mem s') (p_head s') (xs @ ns)"
proof (induction ns arbitrary: s xs)
  case Nil
  then show ?case by simp
next
  case (Cons n ns)
  let ?s1 = "if xs = [] then s\<lparr>p_head := Some n\<rparr>
    else s\<lparr>mem := (mem s)(last xs := (mem s (last xs))\<lparr>next_node := Some n\<rparr>)\<rparr>"
  from Cons.prems(1) have ap: "append_node s (Some n) = Some ?s1"
    by (rule append_node_chain)
  from Cons.prems have n: "n \<notin> set xs" "next_node (mem s n) = None" "distinct xs"
    by auto
  have ch1: "node_chain (mem ?s1) (p_head ?s1) (xs @ [n])"
  proof (cases "xs = []")
    case True
    with n show ?thesis by simp
  next
    case False
    with Cons.prems(1) n show ?thesis by (simp add: node_chain_snoc)
  qed
  have fresh: "\<forall>a\<in>set ns. next_node (mem ?s1 a) = None"
  proof
    fix a assume a: "a \<in> set ns"
    show "next_node (mem ?s1 a) = None"
    proof (cases "xs = []")
      case True
      with a Cons.prems(3) show ?thesis by simp
    next
      case False
      then have "last xs \<in> set xs" by simp
      with a Cons.prems(2) have "a \<noteq> last xs" by auto
      with a Cons.prems(3) False show ?thesis by simp
    qed
  qed
  from Cons.prems(2) have "distinct ((xs @ [n]) @ ns)" by simp
  from Cons.IH [OF ch1 this fresh] ap show ?case by simp
qed

lemma find_preceding_node_pred:
  assumes ch: "node_chain (mem s) (p_head s) xs"
  shows "\<exists>p s'. find_preceding_node s t = Some (p, s') \<and>
    (xs = [] \<longrightarrow> p = None \<and> s' = s\<lparr>diags := diags s @ [WARN]\<rparr>) \<and>
    (xs \<noteq> [] \<longrightarrow> s' = s) \<and>
    (xs \<noteq> [] \<longrightarrow> t = p_head s \<longrightarrow> p = p_head s) \<and>
    (t \<noteq> None \<longrightarrow> t \<notin> Some ` set xs \<longrightarrow> p = None) \<and>
    (xs \<noteq> [] \<longrightarrow> t \<noteq> p_head s \<longrightarrow> t = None \<or> t \<in> Some ` set xs \<longrightarrow>
       (\<exists>q. p = Some q \<and> q \<in> set xs \<and> next_node (mem s q) = t))"
proof (cases xs)
  case Nil
  with find_preceding_node_chain [OF ch, of t] show ?thesis by simp
next
  case (Cons a ys)
  with ch have hd: "p_head s = Some a" by simp
  show ?thesis
  proof (cases "t = Some a")
    case True
    with Cons hd find_preceding_node_chain [OF ch, of t] show ?thesis by auto
  next
    case False
    with Cons find_preceding_node_chain [OF ch, of t]
    have fp: "find_preceding_node s t = Some (pred_in xs t, s)" by simp
    show ?thesis
    proof (cases t)
      case None
      from Cons have ne: "xs \<noteq> []" by simp
      then have "pred_in xs None = Some (last xs)" by (rule pred_in_None)
      moreover from ch ne have "next_node (mem s (last xs)) = None"
        by (rule node_chain_last)
      moreover from ne have "last xs \<in> set xs" by simp
      ultimately show ?thesis using fp None ne hd by auto
    next
      case (Some n)
      show ?thesis
      proof (cases "n \<in> set ys")
        case True
        with Cons have "n \<in> set (tl xs)" by simp
        then obtain us q zs where xs: "xs = us @ q # n # zs"
          and pr: "pred_in xs (Some n) = Some q"
          by (blast dest: pred_in_present)
        from ch xs have "next_node (mem s q) = Some n" by (auto dest: node_chain_mid)
        moreover from xs have "q \<in> set xs" by simp
        ultimately show ?thesis using fp pr Some Cons hd False True by auto
      next
        case nin: False
        with Cons have "n \<notin> set (tl xs)" by simp
        then have "pred_in xs (Some n) = None" by (rule pred_in_absent)
        with fp Some Cons hd False nin show ?thesis by auto
      qed
    qed
  qed
qed

lemma chain_empty_handler: "node_chain (mem (empty_handler h)) (p_head (empty_handler h)) []"
  by (simp add: empty_handler_def)

lemma appends_empty_handler:
  assumes d: "distinct ns" and fr: "\<forall>a\<in>set ns. next_node (h a) = None"
  shows "\<exists>s'. appends (empty_handler h) ns = Some s' \<and> node_chain (mem s') (p_head s') ns"
proof -
  from fr have "\<forall>a\<in>set ns. next_node (mem (empty_handler h) a) = None"
    by (simp add: empty_handler_def)
  with appends_chain [of "empty_handler h" "[]" ns] chain_empty_handler [of h] d
  show ?thesis by simp
qed

section \<open>A list of three nodes\<close>

lemma chain_list3: "node_chain (mem list3) (p_head list3) [1, 2, 3]"
  by (simp add: list3_def mem3_def mem_fresh_def)

lemma chain_inv_list3: "chain_inv list3"
  using chain_list3 unfolding chain_inv_iff by blast

lemma reachable_list3:
  "reachable (mem list3) (p_head list3) q \<longleftrightarrow> q = None \<or> q \<in> Some ` {1, 2, 3}"
  using reachable_chain [OF chain_list3, of q] by simp

lemma fresh_mem_fresh: "\<forall>a\<in>set ns. next_node (mem_fresh a) = None"
  by (simp add: mem_fresh_def)

section \<open>The claims of the specification\<close>

text \<open>
  Claim C1. On a state satisfying the chain invariant, \<open>remove\<close> of any pointer \<open>n\<close>
  returns; it returns 1 (\<open>True\<close>) exactly when \<open>n\<close> is not reachable from the head,
  and then the memory (every node, so every next pointer) and the head are what they
  were before the call.
\<close>

theorem remove_fails_iff_unreachable:
  assumes "chain_inv s"
  shows "\<exists>r s'. remove_node s n = Some (r, s') \<and>
    (r \<longleftrightarrow> \<not> reachable (mem s) (p_head s) n) \<and>
    (r \<longrightarrow> mem s' = mem s \<and> p_head s' = p_head s)"
proof -
  from assms obtain xs where ch: "node_chain (mem s) (p_head s) xs"
    unfolding chain_inv_iff by blast
  from remove_node_chain [OF ch, of n] obtain s' where
    rm: "remove_node s n = Some (n \<noteq> None \<and> n \<notin> Some ` set xs, s')" by blast
  from remove_node_frame [OF ch rm]
  have "n \<noteq> None \<and> n \<notin> Some ` set xs \<longrightarrow> mem s' = mem s \<and> p_head s' = p_head s"
    by blast
  moreover have "(n \<noteq> None \<and> n \<notin> Some ` set xs) \<longleftrightarrow> \<not> reachable (mem s) (p_head s) n"
    using reachable_chain [OF ch, of n] by simp
  ultimately show ?thesis using rm by auto
qed

theorem remove_fails_iff_unreachable_witness:
  "chain_inv list3 \<and> \<not> reachable (mem list3) (p_head list3) (Some 7) \<and>
   (\<exists>s'. remove_node list3 (Some 7) = Some (True, s') \<and>
         mem s' = mem list3 \<and> p_head s' = p_head list3)"
proof -
  have un: "\<not> reachable (mem list3) (p_head list3) (Some 7)"
    by (simp add: reachable_list3)
  from remove_fails_iff_unreachable [OF chain_inv_list3, of "Some 7"] un
  have "\<exists>s'. remove_node list3 (Some 7) = Some (True, s') \<and>
         mem s' = mem list3 \<and> p_head s' = p_head list3" by auto
  with chain_inv_list3 un show ?thesis by blast
qed

text \<open>
  Claim C2. The chain invariant holds of the empty handler, and on a state satisfying
  it, it holds again after the append of a fresh node (next pointer null, not reachable
  from the head) and after the remove of any pointer; both calls return.
\<close>

theorem chain_inv_preserved:
  "chain_inv (empty_handler h) \<and>
   (chain_inv s \<longrightarrow> next_node (mem s n) = None \<longrightarrow>
      \<not> reachable (mem s) (p_head s) (Some n) \<longrightarrow>
      (\<exists>s'. append_node s (Some n) = Some s' \<and> chain_inv s')) \<and>
   (chain_inv s \<longrightarrow> (\<exists>r s'. remove_node s t = Some (r, s') \<and> chain_inv s'))"
proof (intro conjI impI)
  have "node_chain (mem (empty_handler h)) (p_head (empty_handler h)) []"
    by (simp add: empty_handler_def)
  then show "chain_inv (empty_handler h)" unfolding chain_inv_iff by blast
next
  assume inv: "chain_inv s" and nx: "next_node (mem s n) = None"
    and un: "\<not> reachable (mem s) (p_head s) (Some n)"
  from inv obtain xs where ch: "node_chain (mem s) (p_head s) xs"
    unfolding chain_inv_iff by blast
  from un reachable_chain [OF ch, of "Some n"] have "n \<notin> set xs" by auto
  with node_chain_distinct [OF ch] have "distinct (xs @ [n])" by simp
  from appends_chain [OF ch this] nx obtain s' where
    "appends s [n] = Some s'" "node_chain (mem s') (p_head s') (xs @ [n])" by auto
  then show "\<exists>s'. append_node s (Some n) = Some s' \<and> chain_inv s'"
    unfolding chain_inv_iff by (auto split: option.splits)
next
  assume inv: "chain_inv s"
  then obtain xs where ch: "node_chain (mem s) (p_head s) xs"
    unfolding chain_inv_iff by blast
  from remove_node_chain [OF ch, of t] show
    "\<exists>r s'. remove_node s t = Some (r, s') \<and> chain_inv s'"
    unfolding chain_inv_iff by blast
qed

theorem chain_inv_preserved_witness:
  "chain_inv list3 \<and> next_node (mem list3 4) = None \<and>
   \<not> reachable (mem list3) (p_head list3) (Some 4) \<and>
   (\<exists>s'. append_node list3 (Some 4) = Some s' \<and> chain_inv s') \<and>
   (\<exists>r s'. remove_node list3 (Some 2) = Some (r, s') \<and> chain_inv s')"
proof -
  have nx: "next_node (mem list3 4) = None"
    by (simp add: list3_def mem3_def mem_fresh_def)
  have un: "\<not> reachable (mem list3) (p_head list3) (Some 4)"
    by (simp add: reachable_list3)
  from chain_inv_preserved [of mem_fresh list3 4 "Some 2"] chain_inv_list3 nx un
  show ?thesis by blast
qed




text \<open>
  Claim C4. On the empty handler \<open>head\<close> and \<open>tail\<close> return the null pointer. After
  appending a non-empty sequence \<open>ns\<close> of distinct fresh nodes (each with a null next
  pointer) to the empty handler, \<open>head\<close> returns the first appended node and \<open>tail\<close>
  the last one.
\<close>

theorem head_tail_after_appends:
  "head (empty_handler h) = None \<and>
   tail (empty_handler h) = Some (None, (empty_handler h)\<lparr>diags := [WARN]\<rparr>) \<and>
   (distinct ns \<longrightarrow> (\<forall>a\<in>set ns. next_node (h a) = None) \<longrightarrow> ns \<noteq> [] \<longrightarrow>
      (\<exists>s'. appends (empty_handler h) ns = Some s' \<and>
         head s' = Some (hd ns) \<and> tail s' = Some (Some (last ns), s')))"
proof (intro conjI impI)
  show "head (empty_handler h) = None" by (simp add: head_def empty_handler_def)
  from tail_chain [OF chain_empty_handler, of h]
  show "tail (empty_handler h) = Some (None, (empty_handler h)\<lparr>diags := [WARN]\<rparr>)"
    by (simp add: empty_handler_def)
next
  assume "distinct ns" and "\<forall>a\<in>set ns. next_node (h a) = None" and ne: "ns \<noteq> []"
  then obtain s' where ap: "appends (empty_handler h) ns = Some s'"
    and ch: "node_chain (mem s') (p_head s') ns"
    using appends_empty_handler by blast
  from ch ne have "head s' = Some (hd ns)" by (cases ns) (auto simp: head_def)
  moreover from tail_chain [OF ch] ne have "tail s' = Some (Some (last ns), s')" by simp
  ultimately show "\<exists>s'. appends (empty_handler h) ns = Some s' \<and>
         head s' = Some (hd ns) \<and> tail s' = Some (Some (last ns), s')"
    using ap by blast
qed

theorem head_tail_after_appends_witness:
  "distinct [1, 2, 3 :: nat] \<and> [1, 2, 3 :: nat] \<noteq> [] \<and>
   (\<exists>s'. appends (empty_handler mem_fresh) [1, 2, 3] = Some s' \<and>
      head s' = Some 1 \<and> tail s' = Some (Some 3, s'))"
proof -
  have d: "distinct [1, 2, 3 :: nat]" by simp
  from head_tail_after_appends [of mem_fresh "[1, 2, 3]"] d
    fresh_mem_fresh [of "[1, 2, 3]"]
  show ?thesis by simp
qed

text \<open>
  Claim C5. On a state satisfying the chain invariant, \<open>find_preceding_node\<close> returns:
  null on the empty list; the head itself when the target is the head; null when the
  target is not reachable from the head; and otherwise a node \<open>q\<close> of the list whose next
  pointer is the target, which is the only node of the list with that next pointer.
\<close>

theorem find_preceding_node_cases:
  assumes "chain_inv s"
  shows "\<exists>p s'. find_preceding_node s t = Some (p, s') \<and>
    (p_head s = None \<longrightarrow> p = None) \<and>
    (t = p_head s \<longrightarrow> p = p_head s) \<and>
    (\<not> reachable (mem s) (p_head s) t \<longrightarrow> p = None) \<and>
    (p_head s \<noteq> None \<longrightarrow> t \<noteq> p_head s \<longrightarrow> reachable (mem s) (p_head s) t \<longrightarrow>
       (\<exists>q. p = Some q \<and> reachable (mem s) (p_head s) (Some q) \<and>
            next_node (mem s q) = t \<and>
            (\<forall>q'. reachable (mem s) (p_head s) (Some q') \<and> next_node (mem s q') = t
               \<longrightarrow> q' = q)))"
proof -
  from assms obtain xs where ch: "node_chain (mem s) (p_head s) xs"
    unfolding chain_inv_iff by blast
  have d: "distinct xs" using ch by (rule node_chain_distinct)
  have re: "reachable (mem s) (p_head s) q \<longleftrightarrow> q = None \<or> q \<in> Some ` set xs" for q
    using ch by (rule reachable_chain)
  have em: "p_head s = None \<longleftrightarrow> xs = []" using ch by (cases xs) auto
  from find_preceding_node_pred [OF ch, of t] obtain p s' where
    fp: "find_preceding_node s t = Some (p, s')"
    and a: "xs = [] \<longrightarrow> p = None"
    and b: "xs \<noteq> [] \<longrightarrow> t = p_head s \<longrightarrow> p = p_head s"
    and c: "t \<noteq> None \<longrightarrow> t \<notin> Some ` set xs \<longrightarrow> p = None"
    and e: "xs \<noteq> [] \<longrightarrow> t \<noteq> p_head s \<longrightarrow> t = None \<or> t \<in> Some ` set xs \<longrightarrow>
       (\<exists>q. p = Some q \<and> q \<in> set xs \<and> next_node (mem s q) = t)"
    by blast
  have uniq: "q' = q" if "q \<in> set xs" "next_node (mem s q) = t"
    "reachable (mem s) (p_head s) (Some q')" "next_node (mem s q') = t" for q q'
  proof -
    from that(3) have "q' \<in> set xs" by (auto simp: re)
    from node_chain_next_inj [OF ch d this that(1)] that(2,4) show ?thesis by simp
  qed
  have f4: "p_head s \<noteq> None \<longrightarrow> t \<noteq> p_head s \<longrightarrow> reachable (mem s) (p_head s) t \<longrightarrow>
       (\<exists>q. p = Some q \<and> reachable (mem s) (p_head s) (Some q) \<and>
            next_node (mem s q) = t \<and>
            (\<forall>q'. reachable (mem s) (p_head s) (Some q') \<and> next_node (mem s q') = t
               \<longrightarrow> q' = q))"
  proof (intro impI)
    assume "p_head s \<noteq> None" "t \<noteq> p_head s" "reachable (mem s) (p_head s) t"
    with e em re [of t] obtain q where q: "p = Some q" "q \<in> set xs"
      "next_node (mem s q) = t" by blast
    then have "reachable (mem s) (p_head s) (Some q)" by (simp add: re)
    with q uniq [OF q(2,3)] show "\<exists>q. p = Some q \<and> reachable (mem s) (p_head s) (Some q) \<and>
            next_node (mem s q) = t \<and>
            (\<forall>q'. reachable (mem s) (p_head s) (Some q') \<and> next_node (mem s q') = t
               \<longrightarrow> q' = q)" by blast
  qed
  from a em have f1: "p_head s = None \<longrightarrow> p = None" by simp
  from a b em have f2: "t = p_head s \<longrightarrow> p = p_head s" by (cases "xs = []") simp_all
  from c re [of t] have f3: "\<not> reachable (mem s) (p_head s) t \<longrightarrow> p = None" by simp
  show ?thesis
    by (rule exI [of _ p], rule exI [of _ s'], intro conjI) (fact fp f1 f2 f3 f4)+
qed

theorem find_preceding_node_cases_witness:
  "chain_inv list3 \<and> p_head list3 \<noteq> None \<and> Some 3 \<noteq> p_head list3 \<and>
   reachable (mem list3) (p_head list3) (Some 3) \<and>
   (\<exists>s'. find_preceding_node list3 (Some 3) = Some (Some 2, s')) \<and>
   next_node (mem list3 2) = Some 3"
proof -
  have hd: "p_head list3 \<noteq> None" "Some 3 \<noteq> p_head list3" by (simp_all add: list3_def)
  have re: "reachable (mem list3) (p_head list3) (Some 3)" by (simp add: reachable_list3)
  have nx: "next_node (mem list3 2) = Some 3" by (simp add: list3_def mem3_def)
  from find_preceding_node_cases [OF chain_inv_list3, of "Some 3"] hd re
  obtain p s' q where fp: "find_preceding_node list3 (Some 3) = Some (p, s')"
    and q: "p = Some q" "reachable (mem list3) (p_head list3) (Some q)"
      "next_node (mem list3 q) = Some 3" by blast
  from q(2) have "q \<in> {1, 2, 3}" by (auto simp: reachable_list3)
  with q(3) have "q = 2" by (auto simp: list3_def mem3_def mem_fresh_def)
  with fp q(1) chain_inv_list3 hd re nx show ?thesis by blast
qed

text \<open>
  Claim C6. For a node \<open>n\<close> of a list satisfying the chain invariant, \<open>remove\<close> of \<open>n\<close>
  returns 0 and leaves \<open>n\<close> with a null next pointer and its payload pointer as it was;
  the following \<open>append\<close> of \<open>n\<close> returns and gives a state that satisfies the chain
  invariant again, whose chain is the old one without \<open>n\<close> followed by \<open>n\<close>, so that
  \<open>n\<close> is the tail and its next pointer is null.
\<close>

theorem remove_then_append_relinks:
  assumes inv: "chain_inv s" and re: "reachable (mem s) (p_head s) (Some n)"
  shows "\<exists>s1 s2. remove_node s (Some n) = Some (False, s1) \<and>
    next_node (mem s1 n) = None \<and> data (mem s1 n) = data (mem s n) \<and>
    append_node s1 (Some n) = Some s2 \<and> chain_inv s2 \<and>
    tail s2 = Some (Some n, s2) \<and> next_node (mem s2 n) = None \<and>
    data (mem s2 n) = data (mem s n) \<and>
    (\<forall>xs. node_chain (mem s) (p_head s) xs \<longrightarrow>
       node_chain (mem s2) (p_head s2) (remove1 n xs @ [n]))"
proof -
  from inv obtain xs where ch: "node_chain (mem s) (p_head s) xs"
    unfolding chain_inv_iff by blast
  have d: "distinct xs" using ch by (rule node_chain_distinct)
  from re reachable_chain [OF ch, of "Some n"] have n: "n \<in> set xs" by auto
  from remove_node_chain [OF ch, of "Some n"] n obtain s1 where
    rm: "remove_node s (Some n) = Some (False, s1)"
    and ch1: "node_chain (mem s1) (p_head s1) (remove1 n xs)" by auto
  from remove_node_frame [OF ch rm] n have nx1: "next_node (mem s1 n) = None"
    and dt1: "data (mem s1 a) = data (mem s a)" for a by auto
  from d have "distinct (remove1 n xs @ [n])" by simp
  from appends_chain [OF ch1 this] nx1 obtain s2 where
    "appends s1 [n] = Some s2"
    and ch2: "node_chain (mem s2) (p_head s2) (remove1 n xs @ [n])" by auto
  then have ap: "append_node s1 (Some n) = Some s2" by (auto split: option.splits)
  from tail_chain [OF ch2] have tl: "tail s2 = Some (Some n, s2)" by simp
  from node_chain_last [OF ch2] have nx2: "next_node (mem s2 n) = None" by simp
  from ap append_node_chain [OF ch1, of "Some n"] have "data (mem s2 n) = data (mem s1 n)"
    by (auto split: if_splits)
  with dt1 have dt2: "data (mem s2 n) = data (mem s n)" by simp
  have all: "\<forall>ys. node_chain (mem s) (p_head s) ys \<longrightarrow>
       node_chain (mem s2) (p_head s2) (remove1 n ys @ [n])"
    using ch ch2 by (auto dest: node_chain_unique)
  from ch2 have inv2: "chain_inv s2" unfolding chain_inv_iff by blast
  show ?thesis
    by (rule exI [of _ s1], rule exI [of _ s2], intro conjI)
      (fact rm nx1 dt1 ap inv2 tl nx2 dt2 all)+
qed

theorem remove_then_append_relinks_witness:
  "chain_inv list3 \<and> reachable (mem list3) (p_head list3) (Some 2) \<and>
   (\<exists>s1 s2. remove_node list3 (Some 2) = Some (False, s1) \<and>
      next_node (mem s1 2) = None \<and> data (mem s1 2) = 20 \<and>
      append_node s1 (Some 2) = Some s2 \<and> chain_inv s2 \<and>
      tail s2 = Some (Some 2, s2) \<and> node_chain (mem s2) (p_head s2) [1, 3, 2])"
proof -
  have re: "reachable (mem list3) (p_head list3) (Some 2)" by (simp add: reachable_list3)
  have dt: "data (mem list3 2) = 20" by (simp add: list3_def mem3_def)
  from remove_then_append_relinks [OF chain_inv_list3 re] obtain s1 s2 where
    "remove_node list3 (Some 2) = Some (False, s1)"
    "next_node (mem s1 2) = None" "data (mem s1 2) = data (mem list3 2)"
    "append_node s1 (Some 2) = Some s2" "chain_inv s2"
    "tail s2 = Some (Some 2, s2)"
    "\<forall>xs. node_chain (mem list3) (p_head list3) xs \<longrightarrow>
       node_chain (mem s2) (p_head s2) (remove1 2 xs @ [2])"
    by blast
  moreover from this(7) chain_list3
  have "node_chain (mem s2) (p_head s2) (remove1 2 [1, 2, 3] @ [2])" by blast
  then have "node_chain (mem s2) (p_head s2) [1, 3, 2]" by simp
  ultimately show ?thesis using chain_inv_list3 re dt by auto
qed

text \<open>
  Claim C7 says that every successful removal emits an informational diagnostic. The
  branch of \<open>remove\<close> for the head of the list returns 0 before any macro is reached:
  removing node 1, the head of the list 1, 2, 3, succeeds and reports nothing, while
  removing the inner node 2 of the same list succeeds and reports \<open>INFO\<close>. On every
  state, \<open>remove\<close> of the head pointer returns 0 and leaves the diagnostics as they
  were.
\<close>

theorem remove_head_reports_nothing:
  "map_option (\<lambda>r. (fst r, diags (snd r))) (remove_node list3 (Some 1)) = Some (False, []) \<and>
   map_option (\<lambda>r. (fst r, diags (snd r))) (remove_node list3 (Some 2)) =
     Some (False, [INFO (Some 2)]) \<and>
   map_option (\<lambda>r. (fst r, diags (snd r))) (remove_node s (p_head s)) =
     Some (False, diags s)"
proof (intro conjI)
  have "Some 1 = p_head list3" by (simp add: list3_def)
  then show "map_option (\<lambda>r. (fst r, diags (snd r))) (remove_node list3 (Some 1)) =
      Some (False, [])"
    by (simp add: remove_node_def clean_next_ptr_def list3_def)
next
  have "node_chain (mem list3) (p_head list3) ([] @ 1 # 2 # [3])"
    using chain_list3 by simp
  from remove_node_inner [OF this]
  show "map_option (\<lambda>r. (fst r, diags (snd r))) (remove_node list3 (Some 2)) =
     Some (False, [INFO (Some 2)])" by (simp add: list3_def)
next
  show "map_option (\<lambda>r. (fst r, diags (snd r))) (remove_node s (p_head s)) =
     Some (False, diags s)"
    by (simp only: remove_node_at_head) (simp add: clean_next_ptr_def split: option.splits)
qed

text \<open>
  Claim C8. On a state satisfying the chain invariant, with \<open>xs\<close> the chain from the
  head: the loop of \<open>find\<close> and the loop of \<open>find_preceding_node\<close> return after at most
  \<open>length xs\<close> entries into their bodies, and \<open>find\<close>, \<open>find_preceding_node\<close>,
  \<open>tail\<close>, \<open>append\<close> and \<open>remove\<close> return. (\<open>next\<close> and \<open>head\<close> have no loop
  and are total functions of the model.)
\<close>

theorem operations_terminate:
  assumes "chain_inv s"
  shows "\<exists>xs. node_chain (mem s) (p_head s) xs \<and>
    (\<exists>r k. find_loop (mem s) (p_head s) n 0 = Some (r, k) \<and> k \<le> length xs) \<and>
    (p_head s \<noteq> None \<longrightarrow>
       (\<exists>r k. find_preceding_loop (mem s) (p_head s) n 0 = Some (r, k) \<and> k \<le> length xs)) \<and>
    (\<exists>r. find_node s n = Some r) \<and>
    (\<exists>r. find_preceding_node s n = Some r) \<and>
    (\<exists>r. tail s = Some r) \<and>
    (\<exists>s'. append_node s n = Some s') \<and>
    (\<exists>r. remove_node s n = Some r)"
proof -
  from assms obtain xs where ch: "node_chain (mem s) (p_head s) xs"
    unfolding chain_inv_iff by blast
  from find_loop_chain [OF ch, of n 0]
  have f1: "\<exists>r k. find_loop (mem s) (p_head s) n 0 = Some (r, k) \<and> k \<le> length xs"
    by auto
  have f2: "p_head s \<noteq> None \<longrightarrow>
       (\<exists>r k. find_preceding_loop (mem s) (p_head s) n 0 = Some (r, k) \<and> k \<le> length xs)"
  proof
    assume "p_head s \<noteq> None"
    with ch obtain a ys where xs: "xs = a # ys" and hd: "p_head s = Some a"
      by (cases xs) auto
    with ch have "node_chain (mem s) (Some a) (a # ys)" by simp
    from find_preceding_loop_chain [OF this, of n 0] xs hd
    show "\<exists>r k. find_preceding_loop (mem s) (p_head s) n 0 = Some (r, k) \<and> k \<le> length xs"
      by auto
  qed
  have f3: "\<exists>r. find_node s n = Some r" using find_node_chain [OF ch] by blast
  have f4: "\<exists>r. find_preceding_node s n = Some r"
    using find_preceding_node_chain [OF ch] by blast
  have f5: "\<exists>r. tail s = Some r" using tail_chain [OF ch] by blast
  have f6: "\<exists>s'. append_node s n = Some s'" using append_node_chain [OF ch] by blast
  have f7: "\<exists>r. remove_node s n = Some r" using remove_node_chain [OF ch, of n] by blast
  show ?thesis by (rule exI [of _ xs], intro conjI) (fact ch f1 f2 f3 f4 f5 f6 f7)+
qed

theorem operations_terminate_witness:
  "chain_inv list3 \<and> p_head list3 \<noteq> None \<and>
   (\<exists>xs. node_chain (mem list3) (p_head list3) xs \<and> length xs = 3 \<and>
    (\<exists>r k. find_loop (mem list3) (p_head list3) (Some 7) 0 = Some (r, k) \<and> k \<le> length xs) \<and>
    (\<exists>r k. find_preceding_loop (mem list3) (p_head list3) (Some 7) 0 = Some (r, k) \<and>
       k \<le> length xs) \<and>
    (\<exists>r. find_node list3 (Some 7) = Some r) \<and>
    (\<exists>r. find_preceding_node list3 (Some 7) = Some r) \<and>
    (\<exists>r. tail list3 = Some r) \<and>
    (\<exists>s'. append_node list3 (Some 7) = Some s') \<and>
    (\<exists>r. remove_node list3 (Some 7) = Some r))"
proof -
  have hd: "p_head list3 \<noteq> None" by (simp add: list3_def)
  from operations_terminate [OF chain_inv_list3, of "Some 7"] obtain xs where
    ch: "node_chain (mem list3) (p_head list3) xs"
    and rest: "(\<exists>r k. find_loop (mem list3) (p_head list3) (Some 7) 0 = Some (r, k) \<and>
       k \<le> length xs) \<and>
    (p_head list3 \<noteq> None \<longrightarrow>
       (\<exists>r k. find_preceding_loop (mem list3) (p_head list3) (Some 7) 0 = Some (r, k) \<and>
          k \<le> length xs)) \<and>
    (\<exists>r. find_node list3 (Some 7) = Some r) \<and>
    (\<exists>r. find_preceding_node list3 (Some 7) = Some r) \<and>
    (\<exists>r. tail list3 = Some r) \<and>
    (\<exists>s'. append_node list3 (Some 7) = Some s') \<and>
    (\<exists>r. remove_node list3 (Some 7) = Some r)" by blast
  from ch chain_list3 have "xs = [1, 2, 3]" by (rule node_chain_unique)
  then have "length xs = 3" by simp
  with ch rest hd chain_inv_list3 show ?thesis by blast
qed

text \<open>
  Claim C9, as amended. On a state satisfying the chain invariant, \<open>remove\<close> of the null
  pointer returns 0 and leaves memory and head as they were: on the empty list nothing
  at all changes; on a non-empty list \<open>find_preceding_node\<close> of null returns the tail
  \<open>t\<close>, whose next pointer is null already, and the only effect is the \<open>INFO\<close>
  diagnostic. No \<open>ERROR\<close> is reported.
\<close>

theorem remove_null_on_chain:
  assumes "chain_inv s"
  shows "\<exists>s'. remove_node s None = Some (False, s') \<and>
    mem s' = mem s \<and> p_head s' = p_head s \<and>
    (p_head s = None \<longrightarrow> s' = s) \<and>
    (p_head s \<noteq> None \<longrightarrow>
       (\<exists>t. find_preceding_node s None = Some (Some t, s) \<and>
            reachable (mem s) (p_head s) (Some t) \<and> next_node (mem s t) = None \<and>
            s' = s\<lparr>diags := diags s @ [INFO None]\<rparr>))"
proof -
  from assms obtain xs where ch: "node_chain (mem s) (p_head s) xs"
    unfolding chain_inv_iff by blast
  show ?thesis
  proof (cases "xs = []")
    case True
    with ch have "p_head s = None" by simp
    moreover from this remove_node_at_head [of s]
    have "remove_node s None = Some (False, s)" by (simp add: clean_next_ptr_def)
    ultimately show ?thesis by simp
  next
    case False
    with ch have hd: "p_head s \<noteq> None" by (cases xs) auto
    from remove_node_null [OF ch False]
    have rm: "remove_node s None = Some (False, s\<lparr>diags := diags s @ [INFO None]\<rparr>)" .
    from tail_chain [OF ch] False
    have fp: "find_preceding_node s None = Some (Some (last xs), s)"
      by (simp add: tail_def)
    from False have "last xs \<in> set xs" by simp
    with reachable_chain [OF ch, of "Some (last xs)"]
    have re: "reachable (mem s) (p_head s) (Some (last xs))" by simp
    from ch False have nx: "next_node (mem s (last xs)) = None" by (rule node_chain_last)
    from hd rm fp re nx show ?thesis by auto
  qed
qed

theorem remove_null_on_chain_witness:
  "chain_inv list3 \<and> p_head list3 \<noteq> None \<and>
   remove_node list3 None = Some (False, list3\<lparr>diags := [INFO None]\<rparr>) \<and>
   find_preceding_node list3 None = Some (Some 3, list3) \<and>
   next_node (mem list3 3) = None"
proof -
  have hd: "p_head list3 \<noteq> None" by (simp add: list3_def)
  have dg: "diags list3 = []" by (simp add: list3_def)
  from remove_null_on_chain [OF chain_inv_list3] hd obtain s' t where
    rm: "remove_node list3 None = Some (False, s')"
    and fp: "find_preceding_node list3 None = Some (Some t, list3)"
    and re: "reachable (mem list3) (p_head list3) (Some t)"
    and nx: "next_node (mem list3 t) = None"
    and s': "s' = list3\<lparr>diags := diags list3 @ [INFO None]\<rparr>" by blast
  from re have "t \<in> {1, 2, 3}" by (auto simp: reachable_list3)
  with nx have "t = 3" by (auto simp: list3_def mem3_def mem_fresh_def)
  with rm fp nx s' dg hd chain_inv_list3 show ?thesis by simp
qed

text \<open>
  Claim C9 is stated for every handler state. On the cyclic state reached by appending
  node 1 twice (node 1 is the head and its own successor) the walk of
  \<open>find_preceding_node\<close> never meets a null next pointer, and \<open>remove\<close> of the null
  pointer does not return.
\<close>

theorem remove_null_cyclic_diverges: "remove_node list_cyc None = None"
proof -
  have "find_preceding_loop mem_cyc (Some 1) None 0 = None"
  proof (cases "find_preceding_loop mem_cyc (Some 1) None 0")
    case None
    then show ?thesis .
  next
    case (Some r)
    then have False by (rule find_preceding_loop_cyc)
    then show ?thesis ..
  qed
  then have "find_preceding_node list_cyc None = None"
    by (simp add: find_preceding_node_def list_cyc_def)
  then show ?thesis by (simp add: remove_node_def list_cyc_def)
qed

text \<open>
  Claim C10. On an empty handler \<open>tail\<close> returns the null pointer and emits the
  empty-list warning. On a non-empty list \<open>append\<close> emits no diagnostic at all whenever
  it returns, and it does return on a state satisfying the chain invariant.
\<close>

theorem tail_warns_on_empty_only:
  "(p_head s = None \<longrightarrow> tail s = Some (None, s\<lparr>diags := diags s @ [WARN]\<rparr>)) \<and>
   (p_head s \<noteq> None \<longrightarrow> (\<forall>s'. append_node s n = Some s' \<longrightarrow> diags s' = diags s)) \<and>
   (p_head s \<noteq> None \<longrightarrow> chain_inv s \<longrightarrow>
      (\<exists>s'. append_node s n = Some s' \<and> diags s' = diags s))"
proof -
  have a: "p_head s = None \<longrightarrow> tail s = Some (None, s\<lparr>diags := diags s @ [WARN]\<rparr>)"
    by (simp add: tail_def find_preceding_node_def)
  have b: "p_head s \<noteq> None \<longrightarrow> (\<forall>s'. append_node s n = Some s' \<longrightarrow> diags s' = diags s)"
  proof (intro impI allI)
    fix s' assume hd: "p_head s \<noteq> None" and ap: "append_node s n = Some s'"
    from hd obtain a where "p_head s = Some a" by auto
    with ap obtain p s1 where tl: "tail s = Some (p, s1)"
      and s': "(case p of None \<Rightarrow> None
                | Some a \<Rightarrow> Some (s1\<lparr>mem := (mem s1)(a := (mem s1 a)\<lparr>next_node := n\<rparr>)\<rparr>))
               = Some s'"
      by (cases "tail s") (auto simp: append_node_def)
    from tail_not_null [OF hd tl] have "p \<noteq> None" "s1 = s" by simp_all
    with s' show "diags s' = diags s" by auto
  qed
  have c: "p_head s \<noteq> None \<longrightarrow> chain_inv s \<longrightarrow>
      (\<exists>s'. append_node s n = Some s' \<and> diags s' = diags s)"
  proof (intro impI)
    assume "p_head s \<noteq> None" "chain_inv s"
    then obtain xs where "node_chain (mem s) (p_head s) xs"
      unfolding chain_inv_iff by blast
    from append_node_chain [OF this, of n]
    show "\<exists>s'. append_node s n = Some s' \<and> diags s' = diags s" by simp
  qed
  from a b c show ?thesis by (intro conjI)
qed

theorem tail_warns_on_empty_only_witness:
  "p_head (empty_handler mem_fresh) = None \<and>
   tail (empty_handler mem_fresh) = Some (None, (empty_handler mem_fresh)\<lparr>diags := [WARN]\<rparr>) \<and>
   p_head list3 \<noteq> None \<and> chain_inv list3 \<and>
   (\<exists>s'. append_node list3 (Some 4) = Some s' \<and> diags s' = [])"
proof -
  have e: "p_head (empty_handler mem_fresh) = None" "diags (empty_handler mem_fresh) = []"
    by (simp_all add: empty_handler_def)
  have hd: "p_head list3 \<noteq> None" "diags list3 = []" by (simp_all add: list3_def)
  from tail_warns_on_empty_only [of "empty_handler mem_fresh"] e
  have "tail (empty_handler mem_fresh) =
    Some (None, (empty_handler mem_fresh)\<lparr>diags := [WARN]\<rparr>)" by simp
  moreover from tail_warns_on_empty_only [of list3 "Some 4"] hd chain_inv_list3
  have "\<exists>s'. append_node list3 (Some 4) = Some s' \<and> diags s' = []" by simp
  ultimately show ?thesis using e hd chain_inv_list3 by simp
qed

end
